theory Spec2Isabelle
  imports Complex_Main "HOL-Library.Multiset"
begin

section \<open>Python errors and NumPy arrays\<close>

text \<open>
  The module under study is \<^verbatim>\<open>shap/plots.py\<close>. Its one algorithm is
  \<^verbatim>\<open>approx_interactions(index, shap_values, X)\<close>. Array entries are modelled as
  real numbers (the data model of the specification); IEEE rounding, NaN and
  infinities are outside the model. Every exception the function can raise is a
  value of the type \<open>error\<close>.
\<close>

datatype error = IndexError | ValueError | AttributeError | NameError | TypeError

definition ebind :: "error + 'a \<Rightarrow> ('a \<Rightarrow> error + 'b) \<Rightarrow> error + 'b" where
  "ebind m f = (case m of Inl e \<Rightarrow> Inl e | Inr v \<Rightarrow> f v)"

text \<open>
  A two-dimensional \<^verbatim>\<open>ndarray\<close>: \<open>shape0\<close> rows and \<open>shape1\<close> columns. The shape
  is stored beside the rows because an array with no rows still has a column count.
\<close>

record ndarray =
  shape0 :: nat
  shape1 :: nat
  rows :: "real list list"

definition wf_array :: "ndarray \<Rightarrow> bool" where
  "wf_array m \<longleftrightarrow>
     length (rows m) = shape0 m \<and> list_all (\<lambda>r. length r = shape1 m) (rows m)"

definition array_of :: "nat \<Rightarrow> real list list \<Rightarrow> ndarray" where
  "array_of f rs = \<lparr>shape0 = length rs, shape1 = f, rows = rs\<rparr>"

text \<open>Python index normalisation on an axis of length \<open>n\<close>: negative indices count from the end.\<close>

definition norm_index :: "nat \<Rightarrow> int \<Rightarrow> error + nat" where
  "norm_index n i =
     (if 0 \<le> i \<and> i < int n then Inr (nat i)
      else if - int n \<le> i \<and> i < 0 then Inr (nat (i + int n))
      else Inl IndexError)"

text \<open>
  \<^verbatim>\<open>m[inds, j]\<close> with an integer array \<open>inds\<close> (never negative here: it comes from
  \<^verbatim>\<open>np.arange\<close>) and an integer \<open>j\<close>. NumPy applies the integer first, as a view
  of column \<open>j\<close> with its bounds check, and then checks every entry of \<open>inds\<close>
  against the row count.
\<close>

definition fancy_col :: "ndarray \<Rightarrow> nat list \<Rightarrow> int \<Rightarrow> error + real list" where
  "fancy_col m inds j =
     ebind (norm_index (shape1 m) j) (\<lambda>c.
       if list_all (\<lambda>r. r < shape0 m) inds
       then Inr (map (\<lambda>r. rows m ! r ! c) inds)
       else Inl IndexError)"

text \<open>\<^verbatim>\<open>v[idx]\<close> for a one-dimensional array \<open>v\<close> and an integer array \<open>idx\<close>.\<close>

definition fancy :: "real list \<Rightarrow> nat list \<Rightarrow> error + real list" where
  "fancy v idx =
     (if list_all (\<lambda>k. k < length v) idx then Inr (map (\<lambda>k. v ! k) idx)
      else Inl IndexError)"

text \<open>\<^verbatim>\<open>v[i:j]\<close> for \<open>0 \<le> i \<le> j\<close>: slicing truncates at the end of the array.\<close>

definition slice :: "nat \<Rightarrow> nat \<Rightarrow> 'a list \<Rightarrow> 'a list" where
  "slice i j v = take (j - i) (drop i v)"

text \<open>\<^verbatim>\<open>range(0, n, step)\<close>: a zero step raises \<^verbatim>\<open>ValueError\<close>.\<close>

definition py_range :: "nat \<Rightarrow> nat \<Rightarrow> error + nat list" where
  "py_range n step =
     (if step = 0 then Inl ValueError
      else Inr (map (\<lambda>k. k * step) [0..<(n + step - 1) div step]))"

section \<open>NumPy statistics over the reals\<close>

definition mean :: "real list \<Rightarrow> real" where
  "mean v = sum_list v / real (length v)"

text \<open>\<^verbatim>\<open>np.std\<close>: population standard deviation (\<^verbatim>\<open>ddof = 0\<close>).\<close>

definition std :: "real list \<Rightarrow> real" where
  "std v = sqrt (mean (map (\<lambda>a. (a - mean v)\<^sup>2) v))"

text \<open>
  An entry of \<^verbatim>\<open>np.cov\<close> (\<^verbatim>\<open>ddof = 1\<close>) and \<^verbatim>\<open>np.corrcoef(a, b)[0, 1]\<close>, which
  divides the covariance by the square roots of the two variances in turn.
\<close>

definition cov :: "real list \<Rightarrow> real list \<Rightarrow> real" where
  "cov a b =
     sum_list (map (\<lambda>(p, q). (p - mean a) * (q - mean b)) (zip a b)) / (real (length a) - 1)"

definition corrcoef :: "real list \<Rightarrow> real list \<Rightarrow> real" where
  "corrcoef a b = cov a b / sqrt (cov a a) / sqrt (cov b b)"

section \<open>The library functions the algorithm calls\<close>

text \<open>
  \<^verbatim>\<open>np.argsort\<close> and \<^verbatim>\<open>np.random.shuffle\<close> are parameters of the model.
  NumPy's default sort is not stable, so the order among equal keys is left open:
  \<open>argsort_ok\<close> asks only for a permutation of the positions that sorts the keys.
  The shuffle threads the state \<open>'g\<close> of the global random generator and returns a
  rearrangement of its argument.
\<close>

type_synonym argsort = "real list \<Rightarrow> nat list"
type_synonym 'g shuffle = "nat list \<Rightarrow> 'g \<Rightarrow> nat list \<times> 'g"

definition argsort_ok :: "argsort \<Rightarrow> bool" where
  "argsort_ok asort \<longleftrightarrow>
     (\<forall>v. mset (asort v) = mset [0..<length v] \<and> sorted (map (\<lambda>k. v ! k) (asort v)))"

definition shuffle_ok :: "'g shuffle \<Rightarrow> bool" where
  "shuffle_ok shuffle \<longleftrightarrow> (\<forall>a g. mset (fst (shuffle a g)) = mset a)"

text \<open>Two concrete instances: a stable argsort, and a shuffle that reverses and counts its calls.\<close>

definition stable_argsort :: argsort where
  "stable_argsort v = sort_key (\<lambda>k. v ! k) [0..<length v]"

definition rev_shuffle :: "nat shuffle" where
  "rev_shuffle a g = (rev a, Suc g)"

section \<open>approx_interactions\<close>

text \<open>Lines 142-147: the rows that are used.\<close>

definition sample_inds :: "'g shuffle \<Rightarrow> nat \<Rightarrow> 'g \<Rightarrow> nat list \<times> 'g" where
  "sample_inds shuffle n g =
     (if n > 10000
      then (case shuffle [0..<n] g of (a, g') \<Rightarrow> (take 10000 a, g'))
      else ([0..<n], g))"

text \<open>
  Lines 149-152: the target column \<open>x\<close>, its sorting permutation \<open>srt\<close> and the
  target's attributions in that order.
\<close>

definition target_columns ::
  "argsort \<Rightarrow> int \<Rightarrow> ndarray \<Rightarrow> ndarray \<Rightarrow> nat list \<Rightarrow> error + (real list \<times> nat list \<times> real list)"
where
  "target_columns asort index shap_values X inds =
     ebind (fancy_col X inds index) (\<lambda>x.
       let srt = asort x in
       ebind (fancy_col shap_values inds index) (\<lambda>shap_ref0.
         ebind (fancy shap_ref0 srt) (\<lambda>shap_ref. Inr (x, srt, shap_ref))))"

text \<open>Line 153.\<close>

definition bin_width :: "nat \<Rightarrow> nat" where
  "bin_width n = min (n div 10) 50"

text \<open>Lines 163-164: the body of the window loop at offset \<open>i\<close>.\<close>

definition window_step :: "nat \<Rightarrow> real list \<Rightarrow> real list \<Rightarrow> nat \<Rightarrow> real \<Rightarrow> real" where
  "window_step inc shap_ref val_other i v =
     (if std (slice i (i + inc) val_other) > 0 \<and> std (slice i (i + inc) shap_ref) > 0
      then v + \<bar>corrcoef (slice i (i + inc) shap_ref) (slice i (i + inc) val_other)\<bar>
      else v)"

fun window_loop :: "nat \<Rightarrow> real list \<Rightarrow> real list \<Rightarrow> nat list \<Rightarrow> real \<Rightarrow> real" where
  "window_loop inc shap_ref val_other [] v = v"
| "window_loop inc shap_ref val_other (i # offs) v =
     window_loop inc shap_ref val_other offs (window_step inc shap_ref val_other i v)"

text \<open>Lines 156-164: the score of candidate column \<open>i\<close>; \<open>n\<close> is \<^verbatim>\<open>len(x)\<close>.\<close>

definition score_feature ::
  "int \<Rightarrow> ndarray \<Rightarrow> nat list \<Rightarrow> nat list \<Rightarrow> real list \<Rightarrow> nat \<Rightarrow> nat \<Rightarrow> nat \<Rightarrow> error + real"
where
  "score_feature index X inds srt shap_ref n inc i =
     ebind (fancy_col X inds (int i)) (\<lambda>col.
       ebind (fancy col srt) (\<lambda>val_other.
         if int i = index \<or> sum_list (map abs val_other) < 1 / 10 ^ 8 then Inr 0
         else ebind (py_range n inc) (\<lambda>offs.
           Inr (window_loop inc shap_ref val_other offs 0))))"

text \<open>The \<^verbatim>\<open>for\<close> loop of line 155: results are appended in order, the first exception ends it.\<close>

fun collect :: "('a \<Rightarrow> error + 'b) \<Rightarrow> 'a list \<Rightarrow> error + 'b list" where
  "collect f [] = Inr []"
| "collect f (a # as) = ebind (f a) (\<lambda>v. ebind (collect f as) (\<lambda>vs. Inr (v # vs)))"

definition interaction_scores ::
  "argsort \<Rightarrow> int \<Rightarrow> ndarray \<Rightarrow> ndarray \<Rightarrow> nat list \<Rightarrow> error + real list"
where
  "interaction_scores asort index shap_values X inds =
     ebind (target_columns asort index shap_values X inds) (\<lambda>(x, srt, shap_ref).
       collect (score_feature index X inds srt shap_ref (length x) (bin_width (length x)))
         [0..<shape1 X])"

text \<open>Line 167: \<^verbatim>\<open>np.argsort(-np.abs(interactions))\<close>.\<close>

definition rank_scores :: "argsort \<Rightarrow> real list \<Rightarrow> nat list" where
  "rank_scores asort interactions = asort (map (\<lambda>v. - \<bar>v\<bar>) interactions)"

definition approx_interactions ::
  "argsort \<Rightarrow> 'g shuffle \<Rightarrow> int \<Rightarrow> ndarray \<Rightarrow> ndarray \<Rightarrow> 'g \<Rightarrow> (error + nat list) \<times> 'g"
where
  "approx_interactions asort shuffle index shap_values X g =
     (case sample_inds shuffle (shape0 X) g of
        (inds, g') \<Rightarrow>
          (ebind (interaction_scores asort index shap_values X inds)
             (\<lambda>interactions. Inr (rank_scores asort interactions)), g'))"

section \<open>The callers that pick an interaction feature\<close>

text \<open>
  Python binds arguments by position and checks no types, so the call sites are
  modelled over dynamically typed values: an integer or a two-dimensional array.
\<close>

datatype pyval = PyInt int | PyArray ndarray

text \<open>
  \<^verbatim>\<open>approx_interactions\<close> as Python runs it on such values. Line 142 reads
  \<^verbatim>\<open>X.shape\<close>, which an integer does not have. With an array \<open>X\<close>, the rows are
  sampled first; an array of reals in the place of \<open>index\<close> is refused as an index
  by \<^verbatim>\<open>X[inds,index]\<close>, and an integer in the place of \<open>shap_values\<close> cannot be
  subscripted at line 151.
\<close>

definition approx_interactions_call ::
  "argsort \<Rightarrow> 'g shuffle \<Rightarrow> pyval \<Rightarrow> pyval \<Rightarrow> pyval \<Rightarrow> 'g \<Rightarrow> (error + nat list) \<times> 'g"
where
  "approx_interactions_call asort shuffle index shap_values X g =
     (case X of
        PyInt _ \<Rightarrow> (Inl AttributeError, g)
      | PyArray Xa \<Rightarrow>
          (case index of
             PyArray _ \<Rightarrow> (Inl IndexError, snd (sample_inds shuffle (shape0 Xa) g))
           | PyInt k \<Rightarrow>
               (case shap_values of
                  PyArray sv \<Rightarrow> approx_interactions asort shuffle k sv Xa g
                | PyInt _ \<Rightarrow>
                    (case sample_inds shuffle (shape0 Xa) g of
                       (inds, g') \<Rightarrow>
                         (ebind (fancy_col Xa inds k) (\<lambda>x. Inl TypeError), g')))))"

text \<open>\<^verbatim>\<open>r[k]\<close> on the returned index array.\<close>

definition subscript :: "nat list \<Rightarrow> int \<Rightarrow> error + nat" where
  "subscript r k = ebind (norm_index (length r) k) (\<lambda>j. Inr (r ! j))"

text \<open>Line 89 of \<^verbatim>\<open>dependence_plot\<close>, taken when \<^verbatim>\<open>interaction_index == "auto"\<close>.\<close>

definition dependence_plot_auto ::
  "argsort \<Rightarrow> 'g shuffle \<Rightarrow> int \<Rightarrow> ndarray \<Rightarrow> ndarray \<Rightarrow> 'g \<Rightarrow> (error + nat) \<times> 'g"
where
  "dependence_plot_auto asort shuffle ind shap_values features g =
     (case approx_interactions_call asort shuffle
             (PyInt ind) (PyArray shap_values) (PyArray features) g of
        (r, g') \<Rightarrow> (ebind r (\<lambda>order. subscript order 0), g'))"

text \<open>Line 462 of \<^verbatim>\<open>interaction_plot\<close>, taken when \<^verbatim>\<open>interaction_index is None\<close>.\<close>

definition interaction_plot_auto ::
  "argsort \<Rightarrow> 'g shuffle \<Rightarrow> int \<Rightarrow> ndarray \<Rightarrow> ndarray \<Rightarrow> 'g \<Rightarrow> (error + nat) \<times> 'g"
where
  "interaction_plot_auto asort shuffle ind X shap_value_matrix g =
     (case approx_interactions_call asort shuffle
             (PyArray X) (PyArray shap_value_matrix) (PyInt ind) g of
        (r, g') \<Rightarrow> (ebind r (\<lambda>order. subscript order 0), g'))"

text \<open>
  Line 403 of \<^verbatim>\<open>joint_plot\<close>, taken when \<^verbatim>\<open>other_ind is None\<close>, calls the global
  name \<^verbatim>\<open>interactions\<close>. The module's globals are listed with the one function
  modelled here; its other names are the imports, \<^verbatim>\<open>cdict1\<close>, \<^verbatim>\<open>red_blue\<close> and the
  plotting functions \<^verbatim>\<open>dependence_plot\<close>, \<^verbatim>\<open>summary_plot\<close>, \<^verbatim>\<open>visualize\<close>,
  \<^verbatim>\<open>joint_plot\<close>, \<^verbatim>\<open>interaction_plot\<close> and \<^verbatim>\<open>plot\<close>.
\<close>

definition module_globals ::
  "argsort \<Rightarrow> 'g shuffle \<Rightarrow>
     (string \<times> (pyval \<Rightarrow> pyval \<Rightarrow> pyval \<Rightarrow> 'g \<Rightarrow> (error + nat list) \<times> 'g)) list"
where
  "module_globals asort shuffle =
     [(''approx_interactions'', approx_interactions_call asort shuffle)]"

definition joint_plot_auto ::
  "argsort \<Rightarrow> 'g shuffle \<Rightarrow> int \<Rightarrow> ndarray \<Rightarrow> ndarray \<Rightarrow> int \<Rightarrow> 'g \<Rightarrow> (error + nat) \<times> 'g"
where
  "joint_plot_auto asort shuffle ind X shap_value_matrix other_auto_ind g =
     (case map_of (module_globals asort shuffle) ''interactions'' of
        None \<Rightarrow> (Inl NameError, g)
      | Some f \<Rightarrow>
          (case f (PyArray X) (PyArray shap_value_matrix) (PyInt ind) g of
             (r, g') \<Rightarrow> (ebind r (\<lambda>order. subscript order other_auto_ind), g')))"

section \<open>Notions used to state the properties\<close>


text \<open>The offsets whose windows have a non-zero standard deviation in both series.\<close>

definition scored_offsets :: "nat \<Rightarrow> real list \<Rightarrow> real list \<Rightarrow> nat list \<Rightarrow> nat list" where
  "scored_offsets inc shap_ref val_other offs =
     filter (\<lambda>i. std (slice i (i + inc) val_other) \<noteq> 0 \<and> std (slice i (i + inc) shap_ref) \<noteq> 0) offs"

section \<open>The library instances meet their contracts\<close>

lemma stable_argsort_ok: "argsort_ok stable_argsort"
  by (simp add: argsort_ok_def stable_argsort_def)

lemma rev_shuffle_ok: "shuffle_ok rev_shuffle"
  by (simp add: shuffle_ok_def rev_shuffle_def)

section \<open>Sampling of rows\<close>

lemma mset_upt_iff: "mset a = mset [0..<n] \<longleftrightarrow> distinct a \<and> set a = {0..<n}"
proof
  assume h: "mset a = mset [0..<n]"
  then have "distinct a" using mset_eq_imp_distinct_iff [of a "[0..<n]"] by simp
  moreover have "set a = {0..<n}" using mset_eq_setD [OF h] by simp
  ultimately show "distinct a \<and> set a = {0..<n}" by simp
next
  assume "distinct a \<and> set a = {0..<n}"
  then show "mset a = mset [0..<n]"
    using set_eq_iff_mset_eq_distinct [of a "[0..<n]"] by simp
qed



lemma sample_inds_large:
  assumes ok: "shuffle_ok shuffle" and n: "n > 10000"
  shows "length (fst (sample_inds shuffle n g)) = 10000"
    and "distinct (fst (sample_inds shuffle n g))"
    and "set (fst (sample_inds shuffle n g)) \<subseteq> {0..<n}"
proof -
  obtain a g' where s: "shuffle [0..<n] g = (a, g')" by (cases "shuffle [0..<n] g")
  have "mset a = mset [0..<n]" using ok s unfolding shuffle_ok_def by (metis fst_conv)
  then have da: "distinct a" and sa: "set a = {0..<n}" using mset_upt_iff [of a n] by blast+
  have la: "length a = n" using da sa distinct_card [of a] by simp
  have r: "fst (sample_inds shuffle n g) = take 10000 a" using n s by (simp add: sample_inds_def)
  show "length (fst (sample_inds shuffle n g)) = 10000" using r la n by simp
  show "distinct (fst (sample_inds shuffle n g))" using r da by simp
  show "set (fst (sample_inds shuffle n g)) \<subseteq> {0..<n}" using r sa set_take_subset [of 10000 a] by simp
qed



section \<open>The window walk\<close>







lemma bin_width_pos: "10 \<le> n \<Longrightarrow> 0 < bin_width n"
  by (simp add: bin_width_def) 






section \<open>The correlation coefficient is bounded\<close>

lemma sum_sq_expand:
  fixes zs :: "(real \<times> real) list"
  shows "sum_list (map (\<lambda>(p, q). (s * p - t * q)\<^sup>2) zs)
       = s\<^sup>2 * sum_list (map (\<lambda>(p, q). p * p) zs)
         - 2 * s * t * sum_list (map (\<lambda>(p, q). p * q) zs)
         + t\<^sup>2 * sum_list (map (\<lambda>(p, q). q * q) zs)"
  by (induction zs) (auto simp: power2_eq_square algebra_simps)

lemma sum_sq_nonneg:
  fixes zs :: "(real \<times> real) list"
  shows "0 \<le> sum_list (map (\<lambda>(p, q). (s * p - t * q)\<^sup>2) zs)"
  by (rule sum_list_nonneg) auto

lemma cauchy_schwarz_list:
  fixes zs :: "(real \<times> real) list"
  defines "A \<equiv> sum_list (map (\<lambda>(p, q). p * p) zs)"
    and "B \<equiv> sum_list (map (\<lambda>(p, q). q * q) zs)"
    and "C \<equiv> sum_list (map (\<lambda>(p, q). p * q) zs)"
  shows "C\<^sup>2 \<le> A * B"
proof -
  have q: "0 \<le> s\<^sup>2 * A - 2 * s * t * C + t\<^sup>2 * B" for s t
    using sum_sq_nonneg [of s t zs] sum_sq_expand [of s t zs] by (simp add: A_def B_def C_def)
  have B0: "0 \<le> B" unfolding B_def by (rule sum_list_nonneg) auto
  show ?thesis
  proof (cases "B = 0")
    case True
    have "C = 0"
    proof (rule ccontr)
      assume c: "C \<noteq> 0"
      have "0 \<le> 1\<^sup>2 * A - 2 * 1 * ((A + 1) / (2 * C)) * C + ((A + 1) / (2 * C))\<^sup>2 * B"
        by (rule q)
      then show False using c True by (simp add: field_simps)
    qed
    then show ?thesis using True by simp
  next
    case False
    then have Bp: "0 < B" using B0 by simp
    have "0 \<le> B\<^sup>2 * A - 2 * B * C * C + C\<^sup>2 * B" by (rule q)
    then have "0 \<le> B * (A * B - C\<^sup>2)" by (simp add: power2_eq_square algebra_simps)
    then have "0 \<le> A * B - C\<^sup>2" using Bp by (simp add: zero_le_mult_iff)
    then show ?thesis by simp
  qed
qed

lemma cov_alt:
  "cov a b = sum_list (map (\<lambda>(p, q). p * q) (zip (map (\<lambda>p. p - mean a) a) (map (\<lambda>q. q - mean b) b)))
     / (real (length a) - 1)"
  by (simp add: cov_def zip_map_map o_def split_def)

lemma sum_zip_fst:
  fixes f :: "real \<Rightarrow> real"
  assumes "length a = length b"
  shows "sum_list (map (\<lambda>(p, q). f p) (zip a b)) = sum_list (map f a)"
  using assms by (induction a b rule: list_induct2) simp_all

lemma sum_zip_snd:
  fixes f :: "real \<Rightarrow> real"
  assumes "length a = length b"
  shows "sum_list (map (\<lambda>(p, q). f q) (zip a b)) = sum_list (map f b)"
  using assms by (induction a b rule: list_induct2) simp_all

lemma cov_self: "cov a a = sum_list (map (\<lambda>p. p * p) (map (\<lambda>p. p - mean a) a)) / (real (length a) - 1)"
proof -
  have "map (\<lambda>(p, q). (p - m) * (q - m)) (zip a a) = map (\<lambda>p. (p - m) * (p - m)) a" for m
    by (induction a) simp_all
  then show ?thesis by (simp add: cov_def o_def)
qed

lemma cov_sq_le:
  assumes len: "length a = length b"
  shows "(cov a b)\<^sup>2 \<le> cov a a * cov b b"
proof -
  let ?ca = "map (\<lambda>p. p - mean a) a" and ?cb = "map (\<lambda>q. q - mean b) b"
  let ?d = "real (length a) - 1"
  have l: "length ?ca = length ?cb" using len by simp
  have "(sum_list (map (\<lambda>(p, q). p * q) (zip ?ca ?cb)))\<^sup>2
      \<le> sum_list (map (\<lambda>(p, q). p * p) (zip ?ca ?cb)) * sum_list (map (\<lambda>(p, q). q * q) (zip ?ca ?cb))"
    by (rule cauchy_schwarz_list)
  then have cs: "(sum_list (map (\<lambda>(p, q). p * q) (zip ?ca ?cb)))\<^sup>2
      \<le> sum_list (map (\<lambda>p. p * p) ?ca) * sum_list (map (\<lambda>q. q * q) ?cb)"
    using sum_zip_fst [OF l, of "\<lambda>p. p * p"] sum_zip_snd [OF l, of "\<lambda>q. q * q"] by simp
  have "(cov a b)\<^sup>2 = (sum_list (map (\<lambda>(p, q). p * q) (zip ?ca ?cb)))\<^sup>2 / ?d\<^sup>2"
    by (simp add: cov_alt power_divide)
  also have "\<dots> \<le> (sum_list (map (\<lambda>p. p * p) ?ca) * sum_list (map (\<lambda>q. q * q) ?cb)) / ?d\<^sup>2"
    using cs by (rule divide_right_mono) simp
  also have "\<dots> = cov a a * cov b b"
    using len by (simp add: cov_self power2_eq_square)
  finally show ?thesis .
qed

lemma cov_self_nonneg: "2 \<le> length a \<Longrightarrow> 0 \<le> cov a a"
proof -
  assume "2 \<le> length a"
  then have "0 \<le> real (length a) - 1" by simp
  moreover have "0 \<le> sum_list (map (\<lambda>p. p * p) (map (\<lambda>p. p - mean a) a))"
    by (rule sum_list_nonneg) auto
  ultimately show ?thesis by (simp add: cov_self)
qed

lemma corrcoef_bound:
  assumes len: "length a = length b"
  shows "\<bar>corrcoef a b\<bar> \<le> 1"
proof (cases "2 \<le> length a \<and> cov a a \<noteq> 0 \<and> cov b b \<noteq> 0")
  case True
  then have A: "0 < cov a a" and B: "0 < cov b b"
    using cov_self_nonneg [of a] cov_self_nonneg [of b] len by simp_all
  have "\<bar>cov a b\<bar> \<le> sqrt (cov a a * cov b b)"
    using cov_sq_le [OF len] by (intro real_le_rsqrt) simp
  also have "\<dots> = sqrt (cov a a) * sqrt (cov b b)" by (rule real_sqrt_mult)
  finally have "\<bar>cov a b\<bar> / (sqrt (cov a a) * sqrt (cov b b)) \<le> 1" using A B by simp
  then show ?thesis using A B by (simp add: corrcoef_def abs_mult)
next
  case False
  then consider "length a < 2" | "cov a a = 0" | "cov b b = 0" by linarith
  then show ?thesis
  proof cases
    case 1
    then have "length a = 0 \<or> length a = 1" by linarith
    then have "cov a b = 0" by (auto simp: cov_def)
    then show ?thesis by (simp add: corrcoef_def)
  qed (simp_all add: corrcoef_def)
qed

section \<open>Scores as sums over windows\<close>

lemma mean_sq_nonneg: "0 \<le> mean (map (\<lambda>a. (a - m)\<^sup>2) v)"
proof -
  have "0 \<le> sum_list (map (\<lambda>a. (a - m)\<^sup>2) v)" by (rule sum_list_nonneg) auto
  then show ?thesis by (simp add: mean_def)
qed

lemma std_nonneg: "0 \<le> std v"
  by (simp add: std_def mean_sq_nonneg)

lemma std_pos_iff: "0 < std v \<longleftrightarrow> std v \<noteq> 0"
  using std_nonneg [of v] by linarith

lemma window_step_cases:
  "window_step inc shap_ref val_other k acc =
     (if std (slice k (k + inc) val_other) \<noteq> 0 \<and> std (slice k (k + inc) shap_ref) \<noteq> 0
      then acc + \<bar>corrcoef (slice k (k + inc) shap_ref) (slice k (k + inc) val_other)\<bar>
      else acc)"
  by (simp add: window_step_def std_pos_iff)

lemma window_loop_sum:
  "window_loop inc shap_ref val_other offs acc =
     acc + sum_list (map (\<lambda>k. \<bar>corrcoef (slice k (k + inc) shap_ref) (slice k (k + inc) val_other)\<bar>)
                      (scored_offsets inc shap_ref val_other offs))"
proof (induction offs arbitrary: acc)
  case Nil
  then show ?case by (simp add: scored_offsets_def)
next
  case (Cons k offs)
  show ?case
    using Cons.IH [of "window_step inc shap_ref val_other k acc"]
    by (simp add: window_step_cases scored_offsets_def)
qed

lemma score_feature_unfold:
  assumes "fancy_col X inds (int i) = Inr col" and "fancy col srt = Inr val_other"
  shows "score_feature index X inds srt shap_ref n inc i =
     (if int i = index \<or> sum_list (map abs val_other) < 1 / 10 ^ 8 then Inr 0
      else ebind (py_range n inc) (\<lambda>offs. Inr (window_loop inc shap_ref val_other offs 0)))"
  using assms by (simp add: score_feature_def ebind_def)


lemma corrcoef_self: "0 < cov a a \<Longrightarrow> corrcoef a a = 1"
  by (simp add: corrcoef_def)

lemma std_zero_iff: "std v = 0 \<longleftrightarrow> mean (map (\<lambda>a. (a - mean v)\<^sup>2) v) = 0"
  by (simp add: std_def)

lemmas window_eval =
  scored_offsets_def slice_def std_zero_iff mean_def cov_def corrcoef_self upt_rec


lemma ebind_Inr_iff: "ebind m f = Inr r \<longleftrightarrow> (\<exists>v. m = Inr v \<and> f v = Inr r)"
  by (cases m) (simp_all add: ebind_def)

lemma collect_Inr:
  assumes "collect f as = Inr vs"
  shows "list_all2 (\<lambda>a v. f a = Inr v) as vs"
  using assms
proof (induction as arbitrary: vs)
  case Nil
  then show ?case by simp
next
  case (Cons a as)
  from Cons.prems obtain v ws where v: "f a = Inr v" and ws: "collect f as = Inr ws"
    and vs: "vs = v # ws"
    by (auto simp: ebind_Inr_iff)
  show ?case using Cons.IH [OF ws] v vs by simp
qed

lemma fancy_Inr: "fancy v idx = Inr w \<Longrightarrow> w = map (\<lambda>k. v ! k) idx \<and> list_all (\<lambda>k. k < length v) idx"
  by (auto simp: fancy_def split: if_splits)

lemma fancy_col_length: "fancy_col m inds j = Inr col \<Longrightarrow> length col = length inds"
  by (auto simp: fancy_col_def ebind_Inr_iff split: if_splits)

lemma target_columns_Inr:
  assumes "target_columns asort index shap_values X inds = Inr (x, srt, shap_ref)"
  shows "fancy_col X inds index = Inr x" and "srt = asort x"
    and "length x = length inds" and "length shap_ref = length srt"
proof -
  from assms obtain x' s0 s1 where x': "fancy_col X inds index = Inr x'"
    and s0: "fancy_col shap_values inds index = Inr s0"
    and s1: "fancy s0 (asort x') = Inr s1"
    and r: "(x, srt, shap_ref) = (x', asort x', s1)"
    by (auto simp: target_columns_def ebind_Inr_iff Let_def)
  show "fancy_col X inds index = Inr x" using x' r by simp
  show "srt = asort x" using r by simp
  show "length x = length inds" using fancy_col_length [OF x'] r by simp
  show "length shap_ref = length srt" using fancy_Inr [OF s1] r by simp
qed

lemma scored_count_le: "length (scored_offsets inc shap_ref val_other offs) \<le> length offs"
  by (simp add: scored_offsets_def)

lemma abs_corr_sum_le:
  assumes "length shap_ref = length val_other"
  shows "sum_list (map (\<lambda>k. \<bar>corrcoef (slice k (k + inc) shap_ref) (slice k (k + inc) val_other)\<bar>) ks)
           \<le> real (length ks)"
proof (induction ks)
  case Nil
  then show ?case by simp
next
  case (Cons k ks)
  have "length (slice k (k + inc) shap_ref) = length (slice k (k + inc) val_other)"
    using assms by (simp add: slice_def)
  then have "\<bar>corrcoef (slice k (k + inc) shap_ref) (slice k (k + inc) val_other)\<bar> \<le> 1"
    by (rule corrcoef_bound)
  then show ?case using Cons.IH by simp
qed

lemma abs_corr_sum_nonneg:
  "0 \<le> sum_list (map (\<lambda>k. \<bar>corrcoef (slice k (k + inc) shap_ref) (slice k (k + inc) val_other)\<bar>) ks)"
  by (rule sum_list_nonneg) auto

lemma score_feature_bounds:
  assumes col: "fancy_col X inds (int i) = Inr col"
    and vo: "fancy col srt = Inr val_other"
    and len: "length shap_ref = length val_other"
    and res: "score_feature index X inds srt shap_ref n inc i = Inr s"
  shows "0 \<le> s
    \<and> s \<le> real (length (scored_offsets inc shap_ref val_other
                (map (\<lambda>k. k * inc) [0..<(n + inc - 1) div inc])))"
proof (cases "int i = index \<or> sum_list (map abs val_other) < 1 / 10 ^ 8")
  case True
  then have "s = 0" using res score_feature_unfold [OF col vo, of index shap_ref n inc] by simp
  then show ?thesis by simp
next
  case False
  then have e: "ebind (py_range n inc) (\<lambda>offs. Inr (window_loop inc shap_ref val_other offs 0)) = Inr s"
    using res score_feature_unfold [OF col vo, of index shap_ref n inc] by simp
  then have "0 < inc" by (auto simp: py_range_def ebind_def split: if_splits)
  then have "s = sum_list
             (map (\<lambda>k. \<bar>corrcoef (slice k (k + inc) shap_ref) (slice k (k + inc) val_other)\<bar>)
               (scored_offsets inc shap_ref val_other
                 (map (\<lambda>k. k * inc) [0..<(n + inc - 1) div inc])))"
    using e by (simp add: py_range_def ebind_def window_loop_sum)
  then show ?thesis using abs_corr_sum_le [OF len] abs_corr_sum_nonneg by simp
qed

text \<open>
  C9. Every score the function computes is non-negative and at most the number of
  windows walked; a single candidate's score is at most the number \<open>k\<close> of its
  scored windows, which is at most the number of windows. The bound on one window
  is the Cauchy-Schwarz inequality: the absolute correlation coefficient of two
  series of equal length is at most one.
\<close>

theorem score_bounds:
  assumes "interaction_scores asort index shap_values X inds = Inr vs"
  shows "list_all (\<lambda>s. 0 \<le> s
           \<and> s \<le> real ((length inds + bin_width (length inds) - 1) div bin_width (length inds))) vs
    \<and> (\<forall>i col srt val_other shap_ref n inc s.
          fancy_col X inds (int i) = Inr col \<and> fancy col srt = Inr val_other
          \<and> length shap_ref = length val_other
          \<and> score_feature index X inds srt shap_ref n inc i = Inr s \<longrightarrow>
          0 \<le> s
          \<and> s \<le> real (length (scored_offsets inc shap_ref val_other
                  (map (\<lambda>k. k * inc) [0..<(n + inc - 1) div inc])))
          \<and> length (scored_offsets inc shap_ref val_other
                  (map (\<lambda>k. k * inc) [0..<(n + inc - 1) div inc])) \<le> (n + inc - 1) div inc)"
proof
  let ?n = "length inds"
  let ?inc = "bin_width ?n"
  from assms obtain t where t: "target_columns asort index shap_values X inds = Inr t"
    and c0: "(case t of (x, srt, shap_ref) \<Rightarrow>
               collect (score_feature index X inds srt shap_ref (length x) (bin_width (length x)))
                 [0..<shape1 X]) = Inr vs"
    unfolding interaction_scores_def ebind_Inr_iff by blast
  obtain x srt shap_ref where tt: "t = (x, srt, shap_ref)" by (cases t)
  have tc: "target_columns asort index shap_values X inds = Inr (x, srt, shap_ref)"
    using t tt by simp
  have c: "collect (score_feature index X inds srt shap_ref (length x) (bin_width (length x))) [0..<shape1 X] = Inr vs"
    using c0 tt by simp
  have lx: "length x = ?n" and ls: "length shap_ref = length srt"
    using target_columns_Inr [OF tc] by simp_all
  have all: "list_all2 (\<lambda>i s. score_feature index X inds srt shap_ref ?n ?inc i = Inr s) [0..<shape1 X] vs"
    using collect_Inr [OF c] lx by simp
  have "0 \<le> s \<and> s \<le> real ((?n + ?inc - 1) div ?inc)" if "s \<in> set vs" for s
  proof -
    from that obtain k where k: "k < length vs" and sk: "vs ! k = s"
      by (auto simp: in_set_conv_nth)
    have sf0: "score_feature index X inds srt shap_ref ?n ?inc ([0..<shape1 X] ! k) = Inr (vs ! k)"
      using list_all2_nthD2 [OF all k] .
    define i where "i = [0..<shape1 X] ! k"
    have sf: "score_feature index X inds srt shap_ref ?n ?inc i = Inr s"
      using sf0 sk i_def by simp
    then obtain col val_other where col: "fancy_col X inds (int i) = Inr col"
      and vo: "fancy col srt = Inr val_other"
      unfolding score_feature_def ebind_Inr_iff by blast
    have len: "length shap_ref = length val_other" using fancy_Inr [OF vo] ls by simp
    have "0 \<le> s \<and> s \<le> real (length (scored_offsets ?inc shap_ref val_other
                (map (\<lambda>k. k * ?inc) [0..<(?n + ?inc - 1) div ?inc])))"
      using score_feature_bounds [OF col vo len sf] .
    moreover have "length (scored_offsets ?inc shap_ref val_other
                (map (\<lambda>k. k * ?inc) [0..<(?n + ?inc - 1) div ?inc])) \<le> (?n + ?inc - 1) div ?inc"
      using scored_count_le [of ?inc shap_ref val_other "map (\<lambda>k. k * ?inc) [0..<(?n + ?inc - 1) div ?inc]"]
      by simp
    ultimately show ?thesis by linarith
  qed
  then show "list_all (\<lambda>s. 0 \<le> s \<and> s \<le> real ((?n + ?inc - 1) div ?inc)) vs"
    by (simp add: list_all_iff)
next
  show "\<forall>i col srt val_other shap_ref n inc s.
          fancy_col X inds (int i) = Inr col \<and> fancy col srt = Inr val_other
          \<and> length shap_ref = length val_other
          \<and> score_feature index X inds srt shap_ref n inc i = Inr s \<longrightarrow>
          0 \<le> s
          \<and> s \<le> real (length (scored_offsets inc shap_ref val_other
                  (map (\<lambda>k. k * inc) [0..<(n + inc - 1) div inc])))
          \<and> length (scored_offsets inc shap_ref val_other
                  (map (\<lambda>k. k * inc) [0..<(n + inc - 1) div inc])) \<le> (n + inc - 1) div inc"
  proof (intro allI impI, elim conjE)
    fix i col srt val_other shap_ref n inc s
    assume col: "fancy_col X inds (int i) = Inr col" and vo: "fancy col srt = Inr val_other"
      and len: "length shap_ref = length val_other"
      and sf: "score_feature index X inds srt shap_ref n inc i = Inr s"
    have "length (scored_offsets inc shap_ref val_other
                  (map (\<lambda>k. k * inc) [0..<(n + inc - 1) div inc])) \<le> (n + inc - 1) div inc"
      using scored_count_le [of inc shap_ref val_other "map (\<lambda>k. k * inc) [0..<(n + inc - 1) div inc]"]
      by simp
    then show "0 \<le> s
          \<and> s \<le> real (length (scored_offsets inc shap_ref val_other
                  (map (\<lambda>k. k * inc) [0..<(n + inc - 1) div inc])))
          \<and> length (scored_offsets inc shap_ref val_other
                  (map (\<lambda>k. k * inc) [0..<(n + inc - 1) div inc])) \<le> (n + inc - 1) div inc"
      using score_feature_bounds [OF col vo len sf] by simp
  qed
qed

lemmas run_eval =
  interaction_scores_def target_columns_def fancy_col_def norm_index_def array_of_def ebind_def
  stable_argsort_def fancy_def bin_width_def score_feature_def py_range_def window_step_def
  std_pos_iff

theorem score_bounds_witness:
  "interaction_scores stable_argsort 0
     (array_of 2 [[0, 0], [1, 0], [0, 0], [1, 0], [0, 0], [1, 0], [0, 0], [1, 0], [0, 0], [1, 0],
        [0, 0], [1, 0], [0, 0], [1, 0], [0, 0], [1, 0], [0, 0], [1, 0], [0, 0], [1, 0]])
     (array_of 2 [[0, 0], [1, 1], [2, 2], [3, 2], [4, 0], [5, 1], [6, 0], [7, 1], [8, 0], [9, 1],
        [10, 0], [11, 1], [12, 0], [13, 1], [14, 0], [15, 1], [16, 0], [17, 1], [18, 0], [19, 1]])
     [0, 1, 2, 3, 4, 5, 6, 7, 8, 9, 10, 11, 12, 13, 14, 15, 16, 17, 18, 19] = Inr [0, 9]
   \<and> list_all (\<lambda>s. 0 \<le> s \<and> s \<le> real ((20 + bin_width 20 - 1) div bin_width 20)) [0, 9]"
proof -
  let ?S = "array_of 2 [[0, 0], [1, 0], [0, 0], [1, 0], [0, 0], [1, 0], [0, 0], [1, 0], [0, 0], [1, 0],
        [0, 0], [1, 0], [0, 0], [1, 0], [0, 0], [1, 0], [0, 0], [1, 0], [0, 0], [1, 0]]"
  let ?X = "array_of 2 [[0, 0], [1, 1], [2, 2], [3, 2], [4, 0], [5, 1], [6, 0], [7, 1], [8, 0], [9, 1],
        [10, 0], [11, 1], [12, 0], [13, 1], [14, 0], [15, 1], [16, 0], [17, 1], [18, 0], [19, 1]]"
  let ?inds = "[0, 1, 2, 3, 4, 5, 6, 7, 8, 9, 10, 11, 12, 13, 14, 15, 16, 17, 18, 19 :: nat]"
  have r: "interaction_scores stable_argsort 0 ?S ?X ?inds = Inr [0, 9]"
    by (simp add: run_eval window_eval)
  have l: "length ?inds = 20" by simp
  have "list_all (\<lambda>s. 0 \<le> s
           \<and> s \<le> real ((length ?inds + bin_width (length ?inds) - 1) div bin_width (length ?inds))) [0, 9]"
    using score_bounds [OF r, THEN conjunct1] .
  then have "list_all (\<lambda>s. 0 \<le> s \<and> s \<le> real ((20 + bin_width 20 - 1) div bin_width 20)) [0, 9]"
    by (simp only: l)
  then show ?thesis using r by (simp only:)
qed

section \<open>Degenerate columns and the target's own score\<close>

lemma argsort_okD:
  assumes "argsort_ok asort"
  shows "mset (asort v) = mset [0..<length v]"
    and "sorted (map (\<lambda>k. v ! k) (asort v))"
    and "length (asort v) = length v"
    and "set (asort v) = {0..<length v}"
    and "distinct (asort v)"
proof -
  show m: "mset (asort v) = mset [0..<length v]" and "sorted (map (\<lambda>k. v ! k) (asort v))"
    using assms unfolding argsort_ok_def by blast+
  show "length (asort v) = length v" using mset_eq_length [OF m] by simp
  show "set (asort v) = {0..<length v}" using mset_eq_setD [OF m] by simp
  show "distinct (asort v)" using m mset_upt_iff [of "asort v" "length v"] by blast
qed

lemma fancy_perm:
  assumes "mset srt = mset [0..<length col]"
  shows "fancy col srt = Inr (map (\<lambda>k. col ! k) srt)"
    and "mset (map (\<lambda>k. col ! k) srt) = mset col"
proof -
  have s: "set srt = {0..<length col}" using mset_eq_setD [OF assms] by simp
  then show "fancy col srt = Inr (map (\<lambda>k. col ! k) srt)"
    by (simp add: fancy_def list_all_iff)
  have "mset (map (\<lambda>k. col ! k) srt) = image_mset (\<lambda>k. col ! k) (mset srt)" by simp
  also have "\<dots> = image_mset (\<lambda>k. col ! k) (mset [0..<length col])" using assms by simp
  also have "\<dots> = mset (map (\<lambda>k. col ! k) [0..<length col])" by simp
  also have "\<dots> = mset col" by (simp only: map_nth)
  finally show "mset (map (\<lambda>k. col ! k) srt) = mset col" .
qed

lemma sum_abs_perm:
  fixes a b :: "real list"
  assumes "mset a = mset b"
  shows "sum_list (map abs a) = sum_list (map abs b)"
proof -
  have "mset (map abs a) = mset (map abs b)" using assms by (metis mset_map)
  then show ?thesis by (metis sum_mset_sum_list)
qed

lemma degenerate_score:
  assumes col: "fancy_col X inds (int i) = Inr col"
    and srt: "mset srt = mset [0..<length col]"
    and small: "sum_list (map abs col) < 1 / 10 ^ 8"
  shows "score_feature index X inds srt shap_ref n inc i = Inr 0"
proof -
  have "sum_list (map abs (map (\<lambda>k. col ! k) srt)) = sum_list (map abs col)"
    using sum_abs_perm [OF fancy_perm(2) [OF srt]] .
  then show ?thesis
    using score_feature_unfold [OF col fancy_perm(1) [OF srt], of index shap_ref n inc] small
    by simp
qed

lemma interaction_scores_Inr:
  assumes "interaction_scores asort index shap_values X inds = Inr vs"
  obtains x shap_ref where "target_columns asort index shap_values X inds = Inr (x, asort x, shap_ref)"
    and "length x = length inds"
    and "list_all2 (\<lambda>i s. score_feature index X inds (asort x) shap_ref (length inds) (bin_width (length inds)) i = Inr s)
           [0..<shape1 X] vs"
proof -
  from assms obtain t where t: "target_columns asort index shap_values X inds = Inr t"
    and c0: "(case t of (x, srt, shap_ref) \<Rightarrow>
               collect (score_feature index X inds srt shap_ref (length x) (bin_width (length x)))
                 [0..<shape1 X]) = Inr vs"
    unfolding interaction_scores_def ebind_Inr_iff by blast
  obtain x srt shap_ref where tt: "t = (x, srt, shap_ref)" by (cases t)
  have tc: "target_columns asort index shap_values X inds = Inr (x, srt, shap_ref)"
    using t tt by simp
  have c: "collect (score_feature index X inds srt shap_ref (length x) (bin_width (length x))) [0..<shape1 X] = Inr vs"
    using c0 tt by simp
  have s: "srt = asort x" and lx: "length x = length inds"
    using target_columns_Inr [OF tc] by simp_all
  show ?thesis
    using that [of x shap_ref] tc s lx collect_Inr [OF c] by simp
qed

lemma scores_nth:
  assumes "list_all2 (\<lambda>i s. f i = Inr s) [0..<m] vs" and "i < m"
  shows "length vs = m" and "f i = Inr (vs ! i)"
proof -
  show l: "length vs = m" using list_all2_lengthD [OF assms(1)] by simp
  have "f ([0..<m] ! i) = Inr (vs ! i)"
    using list_all2_nthD [OF assms(1), of i] assms(2) by simp
  then show "f i = Inr (vs ! i)" using assms(2) by simp
qed

text \<open>
  C7. When the absolute values of a column over the sampled rows sum to less than
  \<open>10\<^sup>-\<^sup>8\<close> (an all-zero column in particular), the column's score is exactly
  zero: the short-circuit of line 158 answers before the window loop, so no
  correlation is computed and nothing is raised, even for a bin width of zero.
  Reordering the column by the sorting permutation does not change the sum, and
  the score list the function builds holds zero at that column.
\<close>

theorem degenerate_column_zero:
  assumes aok: "argsort_ok asort"
    and i: "i < shape1 X"
    and col: "fancy_col X inds (int i) = Inr col"
    and small: "sum_list (map abs col) < 1 / 10 ^ 8"
  shows "(\<forall>srt shap_ref n inc. mset srt = mset [0..<length col] \<longrightarrow>
            score_feature index X inds srt shap_ref n inc i = Inr 0)
    \<and> (\<forall>vs. interaction_scores asort index shap_values X inds = Inr vs \<longrightarrow> vs ! i = 0)"
proof (intro conjI allI impI)
  fix srt shap_ref n inc
  assume "mset srt = mset [0..<length col]"
  then show "score_feature index X inds srt shap_ref n inc i = Inr 0"
    using degenerate_score [OF col _ small] by blast
next
  fix vs
  assume "interaction_scores asort index shap_values X inds = Inr vs"
  then obtain x shap_ref where lx: "length x = length inds"
    and all: "list_all2 (\<lambda>i s. score_feature index X inds (asort x) shap_ref (length inds) (bin_width (length inds)) i = Inr s)
           [0..<shape1 X] vs"
    by (rule interaction_scores_Inr)
  have "length col = length x" using fancy_col_length [OF col] lx by simp
  then have "mset (asort x) = mset [0..<length col]" using argsort_okD(1) [OF aok, of x] by simp
  then have "score_feature index X inds (asort x) shap_ref (length inds) (bin_width (length inds)) i = Inr 0"
    by (rule degenerate_score [OF col _ small])
  then show "vs ! i = 0" using scores_nth(2) [OF all i] by simp
qed

theorem degenerate_column_zero_witness:
  "score_feature 0 (array_of 2 [[1, 0]]) [0] [0] [5] 1 0 1 = Inr 0
   \<and> interaction_scores stable_argsort 0 (array_of 2 [[5, 7]]) (array_of 2 [[1, 0]]) [0] = Inr [0, 0]
   \<and> [0, 0 :: real] ! 1 = 0"
proof -
  let ?X = "array_of 2 [[1, 0]]"
  have i: "1 < shape1 ?X" by (simp add: array_of_def)
  have col: "fancy_col ?X [0] (int 1) = Inr [0]"
    by (simp add: fancy_col_def norm_index_def array_of_def ebind_def)
  have small: "sum_list (map abs [0 :: real]) < 1 / 10 ^ 8" by simp
  note w = degenerate_column_zero [OF stable_argsort_ok i col small, of 0 "array_of 2 [[5, 7]]"]
  have p: "mset [0 :: nat] = mset [0..<length [0 :: real]]" by simp
  have a: "score_feature 0 ?X [0] [0] [5] 1 0 1 = Inr 0"
    using w [THEN conjunct1] p by blast
  have r: "interaction_scores stable_argsort 0 (array_of 2 [[5, 7]]) ?X [0] = Inr [0, 0]"
    by (simp add: run_eval upt_rec)
  have b: "[0, 0 :: real] ! 1 = 0" using w [THEN conjunct2] r by blast
  show ?thesis using a r b by (simp only:)
qed

lemma approx_interactions_Inr:
  assumes "approx_interactions asort shuffle index shap_values X g = (Inr r, g')"
  obtains vs where
    "interaction_scores asort index shap_values X (fst (sample_inds shuffle (shape0 X) g)) = Inr vs"
    and "r = rank_scores asort vs"
proof -
  obtain inds g0 where s: "sample_inds shuffle (shape0 X) g = (inds, g0)"
    by (cases "sample_inds shuffle (shape0 X) g")
  have "ebind (interaction_scores asort index shap_values X inds)
          (\<lambda>interactions. Inr (rank_scores asort interactions)) = Inr r"
    using assms s by (simp add: approx_interactions_def)
  then obtain vs where "interaction_scores asort index shap_values X inds = Inr vs"
    and "r = rank_scores asort vs"
    unfolding ebind_Inr_iff by auto
  then show ?thesis using that [of vs] s by simp
qed

lemma rank_scores_perm:
  assumes "argsort_ok asort"
  shows "length (rank_scores asort vs) = length vs"
    and "distinct (rank_scores asort vs)"
    and "set (rank_scores asort vs) = {0..<length vs}"
  using argsort_okD(3,4,5) [OF assms, of "map (\<lambda>v. - \<bar>v\<bar>) vs"]
  by (simp_all add: rank_scores_def)

lemma rank_scores_descending:
  assumes aok: "argsort_ok asort"
    and pq: "p \<le> q" "q < length (rank_scores asort vs)"
  shows "\<bar>vs ! (rank_scores asort vs ! q)\<bar> \<le> \<bar>vs ! (rank_scores asort vs ! p)\<bar>"
proof -
  let ?keys = "map (\<lambda>v. - \<bar>v\<bar>) vs"
  let ?r = "rank_scores asort vs"
  have r: "?r = asort ?keys" by (simp add: rank_scores_def)
  have srt: "sorted (map (\<lambda>k. ?keys ! k) ?r)" using argsort_okD(2) [OF aok, of ?keys] r by simp
  have inr: "k < length ?r \<Longrightarrow> ?r ! k < length vs" for k
    using rank_scores_perm(3) [OF aok, of vs] nth_mem [of k ?r] by auto
  have "map (\<lambda>k. ?keys ! k) ?r ! p \<le> map (\<lambda>k. ?keys ! k) ?r ! q"
    using sorted_nth_mono [OF srt, of p q] pq by simp
  then have "?keys ! (?r ! p) \<le> ?keys ! (?r ! q)" using pq by simp
  then show ?thesis using inr [of p] inr [of q] pq by simp
qed

lemma target_score_zero:
  assumes idx: "0 \<le> index" "index < int (shape1 X)"
    and sc: "interaction_scores asort index shap_values X inds = Inr vs"
  shows "length vs = shape1 X" and "vs ! nat index = 0"
proof -
  from sc obtain x shap_ref where
    all: "list_all2 (\<lambda>i s. score_feature index X inds (asort x) shap_ref (length inds) (bin_width (length inds)) i = Inr s)
           [0..<shape1 X] vs"
    by (rule interaction_scores_Inr)
  have i: "nat index < shape1 X" using idx by simp
  show "length vs = shape1 X" using scores_nth(1) [OF all i] .
  have sf: "score_feature index X inds (asort x) shap_ref (length inds) (bin_width (length inds)) (nat index)
          = Inr (vs ! nat index)"
    using scores_nth(2) [OF all i] .
  then obtain col val_other where col: "fancy_col X inds (int (nat index)) = Inr col"
    and vo: "fancy col (asort x) = Inr val_other"
    unfolding score_feature_def ebind_Inr_iff by blast
  have "score_feature index X inds (asort x) shap_ref (length inds) (bin_width (length inds)) (nat index) = Inr 0"
    using score_feature_unfold [OF col vo, of index] idx by simp
  then show "vs ! nat index = 0" using sf by simp
qed

text \<open>
  C6. For a target index in \<open>[0, F)\<close> the target's own score is exactly zero: the
  test \<^verbatim>\<open>i == index\<close> answers zero whatever the data and the bin width. Whenever
  the function returns a ranking, the score list has zero at the target, and every
  feature with a strictly positive score stands before the target in the ranking.
\<close>

theorem target_ranks_behind_positive:
  assumes aok: "argsort_ok asort"
    and idx: "0 \<le> index" "index < int (shape1 X)"
    and ret: "approx_interactions asort shuffle index shap_values X g = (Inr r, g')"
  shows "\<exists>vs. interaction_scores asort index shap_values X (fst (sample_inds shuffle (shape0 X) g)) = Inr vs
      \<and> r = rank_scores asort vs
      \<and> length vs = shape1 X
      \<and> vs ! nat index = 0
      \<and> (\<forall>p q. p < length r \<and> q < length r \<and> r ! q = nat index \<and> 0 < vs ! (r ! p) \<longrightarrow> p < q)
      \<and> (\<forall>inds col srt val_other shap_ref n inc.
            fancy_col X inds index = Inr col \<and> fancy col srt = Inr val_other \<longrightarrow>
            score_feature index X inds srt shap_ref n inc (nat index) = Inr 0)"
proof -
  from ret obtain vs where
    sc: "interaction_scores asort index shap_values X (fst (sample_inds shuffle (shape0 X) g)) = Inr vs"
    and r: "r = rank_scores asort vs"
    by (rule approx_interactions_Inr)
  have l: "length vs = shape1 X" and z: "vs ! nat index = 0"
    using target_score_zero [OF idx sc] by simp_all
  have "p < q" if h: "p < length r \<and> q < length r \<and> r ! q = nat index \<and> 0 < vs ! (r ! p)" for p q
  proof (rule ccontr)
    assume "\<not> p < q"
    then have "q \<le> p" by simp
    then have "\<bar>vs ! (r ! p)\<bar> \<le> \<bar>vs ! (r ! q)\<bar>"
      using rank_scores_descending [OF aok, of q p vs] h r by simp
    then show False using h z by simp
  qed
  moreover have "score_feature index X inds srt shap_ref n inc (nat index) = Inr 0"
    if "fancy_col X inds index = Inr col \<and> fancy col srt = Inr val_other"
    for inds col srt val_other shap_ref n inc
    using score_feature_unfold [of X inds "nat index" col srt val_other index shap_ref n inc] that idx
    by simp
  ultimately show ?thesis using sc r l z by blast
qed

theorem target_ranks_behind_positive_witness:
  "approx_interactions stable_argsort rev_shuffle 0
     (array_of 2 [[0, 0], [1, 0], [0, 0], [1, 0], [0, 0], [1, 0], [0, 0], [1, 0], [0, 0], [1, 0],
        [0, 0], [1, 0], [0, 0], [1, 0], [0, 0], [1, 0], [0, 0], [1, 0], [0, 0], [1, 0]])
     (array_of 2 [[0, 0], [1, 1], [2, 2], [3, 2], [4, 0], [5, 1], [6, 0], [7, 1], [8, 0], [9, 1],
        [10, 0], [11, 1], [12, 0], [13, 1], [14, 0], [15, 1], [16, 0], [17, 1], [18, 0], [19, 1]])
     (0 :: nat) = (Inr [1, 0], 0)
   \<and> (\<exists>vs. [1, 0] = rank_scores stable_argsort vs \<and> length vs = 2 \<and> vs ! 0 = 0 \<and> 0 < vs ! 1
         \<and> (\<forall>q < 2. [1, 0 :: nat] ! q = 0 \<longrightarrow> 0 < q))"
proof -
  let ?S = "array_of 2 [[0, 0], [1, 0], [0, 0], [1, 0], [0, 0], [1, 0], [0, 0], [1, 0], [0, 0], [1, 0],
        [0, 0], [1, 0], [0, 0], [1, 0], [0, 0], [1, 0], [0, 0], [1, 0], [0, 0], [1, 0]]"
  let ?X = "array_of 2 [[0, 0], [1, 1], [2, 2], [3, 2], [4, 0], [5, 1], [6, 0], [7, 1], [8, 0], [9, 1],
        [10, 0], [11, 1], [12, 0], [13, 1], [14, 0], [15, 1], [16, 0], [17, 1], [18, 0], [19, 1]]"
  let ?inds = "[0, 1, 2, 3, 4, 5, 6, 7, 8, 9, 10, 11, 12, 13, 14, 15, 16, 17, 18, 19 :: nat]"
  have n: "shape0 ?X = 20" and f: "shape1 ?X = 2" by (simp_all add: array_of_def)
  have s: "sample_inds rev_shuffle (shape0 ?X) (0 :: nat) = (?inds, 0)"
    by (simp add: n sample_inds_def upt_rec)
  have sc: "interaction_scores stable_argsort 0 ?S ?X ?inds = Inr [0, 9]"
    by (simp add: run_eval window_eval)
  have rk: "rank_scores stable_argsort [0, 9] = [1, 0]"
    by (simp add: rank_scores_def stable_argsort_def upt_rec)
  have ret: "approx_interactions stable_argsort rev_shuffle 0 ?S ?X (0 :: nat) = (Inr [1, 0], 0)"
    by (simp only: approx_interactions_def s prod.case sc ebind_def sum.case rk)
  have i0: "(0 :: int) \<le> 0" and i1: "(0 :: int) < int (shape1 ?X)" by (simp_all add: f)
  from target_ranks_behind_positive [OF stable_argsort_ok i0 i1 ret]
  obtain vs where v: "interaction_scores stable_argsort 0 ?S ?X
        (fst (sample_inds rev_shuffle (shape0 ?X) (0 :: nat))) = Inr vs"
    and r: "[1, 0] = rank_scores stable_argsort vs"
    and l: "length vs = shape1 ?X" and z: "vs ! nat 0 = 0"
    and o: "\<forall>p q. p < length [1, 0 :: nat] \<and> q < length [1, 0 :: nat] \<and> [1, 0] ! q = nat 0
              \<and> 0 < vs ! ([1, 0] ! p) \<longrightarrow> p < q"
    by blast
  have e: "vs = [0, 9]" using v s sc by simp
  have p: "0 < vs ! 1" using e by simp
  have "\<forall>q < 2. [1, 0 :: nat] ! q = 0 \<longrightarrow> 0 < q"
  proof (intro allI impI)
    fix q :: nat assume "q < 2" and "[1, 0 :: nat] ! q = 0"
    then show "0 < q" using o [rule_format, of 0 q] p by simp
  qed
  then show ?thesis using ret r l z p f by auto
qed

section \<open>Returning, raising and the shape of the result\<close>

lemma collect_total:
  assumes "\<forall>a \<in> set as. \<exists>v. f a = Inr v"
  shows "\<exists>vs. collect f as = Inr vs"
  using assms
proof (induction as)
  case Nil
  then show ?case by simp
next
  case (Cons a as)
  then obtain v vs where "f a = Inr v" and "collect f as = Inr vs" by auto
  then show ?case by (simp add: ebind_def)
qed

lemma collect_raises:
  assumes "\<forall>a \<in> set as. f a = Inl e \<or> (\<exists>v. f a = Inr v)"
    and "\<exists>a \<in> set as. f a = Inl e"
  shows "collect f as = Inl e"
  using assms
proof (induction as)
  case Nil
  then show ?case by simp
next
  case (Cons a as)
  show ?case
  proof (cases "f a = Inl e")
    case True
    then show ?thesis by (simp add: ebind_def)
  next
    case False
    then obtain v where v: "f a = Inr v" using Cons.prems(1) by auto
    have "\<exists>b \<in> set as. f b = Inl e" using Cons.prems(2) False by auto
    then have "collect f as = Inl e" using Cons.IH Cons.prems(1) by simp
    then show ?thesis using v by (simp add: ebind_def)
  qed
qed

lemma sample_inds_rows:
  assumes "shuffle_ok shuffle"
  shows "set (fst (sample_inds shuffle n g)) \<subseteq> {0..<n}"
    and "length (fst (sample_inds shuffle n g)) = min n 10000"
proof -
  show "set (fst (sample_inds shuffle n g)) \<subseteq> {0..<n}"
  proof (cases "n > 10000")
    case True
    then show ?thesis using sample_inds_large(3) [OF assms] by blast
  next
    case False
    then show ?thesis by (simp add: sample_inds_def)
  qed
  show "length (fst (sample_inds shuffle n g)) = min n 10000"
  proof (cases "n > 10000")
    case True
    then show ?thesis using sample_inds_large(1) [OF assms True, of g] by simp
  next
    case False
    then show ?thesis by (simp add: sample_inds_def)
  qed
qed

lemma fancy_col_ok:
  assumes "set inds \<subseteq> {0..<shape0 m}" and "0 \<le> j" and "j < int (shape1 m)"
  shows "fancy_col m inds j = Inr (map (\<lambda>r. rows m ! r ! nat j) inds)"
  using assms by (auto simp: fancy_col_def norm_index_def ebind_def list_all_iff)

lemma target_columns_ok:
  assumes aok: "argsort_ok asort"
    and inds: "set inds \<subseteq> {0..<shape0 X}" "set inds \<subseteq> {0..<shape0 shap_values}"
    and idx: "0 \<le> index" "index < int (shape1 X)" "index < int (shape1 shap_values)"
  shows "\<exists>x shap_ref. target_columns asort index shap_values X inds = Inr (x, asort x, shap_ref)
           \<and> length x = length inds"
proof -
  let ?x = "map (\<lambda>r. rows X ! r ! nat index) inds"
  let ?s = "map (\<lambda>r. rows shap_values ! r ! nat index) inds"
  have x: "fancy_col X inds index = Inr ?x" using fancy_col_ok [OF inds(1) idx(1,2)] .
  have s: "fancy_col shap_values inds index = Inr ?s" using fancy_col_ok [OF inds(2) idx(1,3)] .
  have "mset (asort ?x) = mset [0..<length ?s]" using argsort_okD(1) [OF aok, of ?x] by simp
  then have f: "fancy ?s (asort ?x) = Inr (map (\<lambda>k. ?s ! k) (asort ?x))" by (rule fancy_perm(1))
  have "target_columns asort index shap_values X inds = Inr (?x, asort ?x, map (\<lambda>k. ?s ! k) (asort ?x))"
    by (simp only: target_columns_def x s f ebind_def sum.case Let_def)
  then show ?thesis by (metis length_map)
qed

lemma score_feature_cases:
  assumes inds: "set inds \<subseteq> {0..<shape0 X}" and i: "i < shape1 X"
    and srt: "mset srt = mset [0..<length inds]"
  shows "score_feature index X inds srt shap_ref n inc i =
     (if int i = index \<or> sum_list (map abs (map (\<lambda>r. rows X ! r ! i) inds)) < 1 / 10 ^ 8 then Inr 0
      else if inc = 0 then Inl ValueError
      else Inr (window_loop inc shap_ref (map (\<lambda>k. map (\<lambda>r. rows X ! r ! i) inds ! k) srt)
                  (map (\<lambda>k. k * inc) [0..<(n + inc - 1) div inc]) 0))"
proof -
  let ?col = "map (\<lambda>r. rows X ! r ! i) inds"
  have col: "fancy_col X inds (int i) = Inr ?col"
    using fancy_col_ok [OF inds, of "int i"] i by simp
  have s: "mset srt = mset [0..<length ?col]" using srt by simp
  have "sum_list (map abs (map (\<lambda>k. ?col ! k) srt)) = sum_list (map abs ?col)"
    using sum_abs_perm [OF fancy_perm(2) [OF s]] .
  then show ?thesis
    using score_feature_unfold [OF col fancy_perm(1) [OF s], of index shap_ref n inc]
    by (simp add: py_range_def ebind_def)
qed

lemma interaction_scores_collect:
  assumes aok: "argsort_ok asort"
    and inds: "set inds \<subseteq> {0..<shape0 X}" "set inds \<subseteq> {0..<shape0 shap_values}"
    and idx: "0 \<le> index" "index < int (shape1 X)" "index < int (shape1 shap_values)"
  shows "\<exists>x shap_ref. mset (asort x) = mset [0..<length inds]
      \<and> interaction_scores asort index shap_values X inds =
          collect (score_feature index X inds (asort x) shap_ref (length inds) (bin_width (length inds)))
            [0..<shape1 X]"
proof -
  from target_columns_ok [OF aok inds idx] obtain x shap_ref where
    tc: "target_columns asort index shap_values X inds = Inr (x, asort x, shap_ref)"
    and lx: "length x = length inds" by blast
  have "interaction_scores asort index shap_values X inds =
          collect (score_feature index X inds (asort x) shap_ref (length inds) (bin_width (length inds)))
            [0..<shape1 X]"
    by (simp add: interaction_scores_def tc ebind_def lx)
  moreover have "mset (asort x) = mset [0..<length inds]"
    using argsort_okD(1) [OF aok, of x] lx by simp
  ultimately show ?thesis by blast
qed

lemma approx_interactions_fst:
  "fst (approx_interactions asort shuffle index shap_values X g) =
     ebind (interaction_scores asort index shap_values X (fst (sample_inds shuffle (shape0 X) g)))
       (\<lambda>interactions. Inr (rank_scores asort interactions))"
  by (cases "sample_inds shuffle (shape0 X) g") (simp add: approx_interactions_def)

lemma approx_interactions_returns:
  assumes aok: "argsort_ok asort" and sok: "shuffle_ok shuffle"
    and shapes: "shape0 X \<le> shape0 shap_values"
    and idx: "0 \<le> index" "index < int (shape1 X)" "index < int (shape1 shap_values)"
    and n: "10 \<le> shape0 X"
  shows "\<exists>r. fst (approx_interactions asort shuffle index shap_values X g) = Inr r"
proof -
  let ?inds = "fst (sample_inds shuffle (shape0 X) g)"
  have i1: "set ?inds \<subseteq> {0..<shape0 X}" and li: "length ?inds = min (shape0 X) 10000"
    using sample_inds_rows [OF sok] by simp_all
  have i2: "set ?inds \<subseteq> {0..<shape0 shap_values}" using i1 shapes by auto
  from interaction_scores_collect [OF aok i1 i2 idx] obtain x shap_ref where
    srt: "mset (asort x) = mset [0..<length ?inds]"
    and sc: "interaction_scores asort index shap_values X ?inds =
          collect (score_feature index X ?inds (asort x) shap_ref (length ?inds) (bin_width (length ?inds)))
            [0..<shape1 X]" by blast
  have "10 \<le> length ?inds" using li n by simp
  then have inc: "bin_width (length ?inds) \<noteq> 0" using bin_width_pos by simp
  have "\<forall>i \<in> set [0..<shape1 X].
          \<exists>s. score_feature index X ?inds (asort x) shap_ref (length ?inds) (bin_width (length ?inds)) i = Inr s"
  proof
    fix i assume "i \<in> set [0..<shape1 X]"
    then have i: "i < shape1 X" by simp
    show "\<exists>s. score_feature index X ?inds (asort x) shap_ref (length ?inds) (bin_width (length ?inds)) i = Inr s"
      using score_feature_cases [OF i1 i srt, of index shap_ref "length ?inds" "bin_width (length ?inds)"] inc
      by simp
  qed
  then obtain vs where "interaction_scores asort index shap_values X ?inds = Inr vs"
    using collect_total sc by metis
  then show ?thesis by (simp add: approx_interactions_fst ebind_def)
qed

lemma ranking_is_permutation:
  assumes aok: "argsort_ok asort"
    and ret: "approx_interactions asort shuffle index shap_values X g = (Inr r, g')"
  shows "length r = shape1 X \<and> distinct r \<and> set r = {0..<shape1 X}"
proof -
  from ret obtain vs where
    sc: "interaction_scores asort index shap_values X (fst (sample_inds shuffle (shape0 X) g)) = Inr vs"
    and r: "r = rank_scores asort vs"
    by (rule approx_interactions_Inr)
  from sc have "length vs = shape1 X"
    by (rule interaction_scores_Inr) (use list_all2_lengthD in fastforce)
  then show ?thesis using rank_scores_perm [OF aok, of vs] r by simp
qed

text \<open>
  C2. The function does raise on well-formed input. With fewer than ten rows the
  bin width \<open>min (n div 10) 50\<close> is zero, and \<^verbatim>\<open>range(0, len(x), 0)\<close> raises
  \<^verbatim>\<open>ValueError\<close> for the first candidate that is neither the target nor a
  degenerate column. Matching shapes and a valid target index do not prevent it.
  With ten rows or more the call returns (lemma \<open>approx_interactions_returns\<close>).
\<close>

theorem small_sample_raises:
  assumes aok: "argsort_ok asort" and sok: "shuffle_ok shuffle"
    and wf: "wf_array X" "wf_array shap_values"
    and shapes: "shape0 shap_values = shape0 X" "shape1 shap_values = shape1 X"
    and idx: "0 \<le> index" "index < int (shape1 X)"
    and n: "shape0 X < 10"
    and ex: "\<exists>i < shape1 X. int i \<noteq> index
               \<and> \<not> sum_list (map abs (map (\<lambda>r. rows X ! r ! i) [0..<shape0 X])) < 1 / 10 ^ 8"
  shows "fst (approx_interactions asort shuffle index shap_values X g) = Inl ValueError"
proof -
  let ?inds = "[0..<shape0 X]"
  have s: "fst (sample_inds shuffle (shape0 X) g) = ?inds" using n by (simp add: sample_inds_def)
  have i1: "set ?inds \<subseteq> {0..<shape0 X}" by simp
  have i2: "set ?inds \<subseteq> {0..<shape0 shap_values}" using shapes by simp
  have idx3: "index < int (shape1 shap_values)" using idx shapes by simp
  from interaction_scores_collect [OF aok i1 i2 idx idx3] obtain x shap_ref where
    srt: "mset (asort x) = mset [0..<length ?inds]"
    and sc: "interaction_scores asort index shap_values X ?inds =
          collect (score_feature index X ?inds (asort x) shap_ref (length ?inds) (bin_width (length ?inds)))
            [0..<shape1 X]" by blast
  have inc: "bin_width (length ?inds) = 0" using n by (simp add: bin_width_def)
  let ?f = "score_feature index X ?inds (asort x) shap_ref (length ?inds) (bin_width (length ?inds))"
  have each: "\<forall>i \<in> set [0..<shape1 X]. ?f i = Inl ValueError \<or> (\<exists>v. ?f i = Inr v)"
  proof
    fix i assume "i \<in> set [0..<shape1 X]"
    then have i: "i < shape1 X" by simp
    show "?f i = Inl ValueError \<or> (\<exists>v. ?f i = Inr v)"
      using score_feature_cases [OF i1 i srt, of index shap_ref "length ?inds" "bin_width (length ?inds)"] inc
      by simp
  qed
  from ex obtain i where i: "i < shape1 X" and nt: "int i \<noteq> index"
    and nd: "\<not> sum_list (map abs (map (\<lambda>r. rows X ! r ! i) ?inds)) < 1 / 10 ^ 8" by blast
  have "?f i = Inl ValueError"
    using score_feature_cases [OF i1 i srt, of index shap_ref "length ?inds" "bin_width (length ?inds)"]
      inc nt nd by simp
  then have some: "\<exists>i \<in> set [0..<shape1 X]. ?f i = Inl ValueError" using i by auto
  have "interaction_scores asort index shap_values X ?inds = Inl ValueError"
    using collect_raises [OF each some] sc by simp
  then show ?thesis by (simp add: approx_interactions_fst s ebind_def)
qed

theorem small_sample_raises_witness:
  "wf_array (array_of 2 [[1, 2], [2, 1], [3, 5], [4, 3], [5, 8], [6, 2], [7, 7], [8, 4], [9, 6]])
   \<and> shape0 (array_of 2 [[1, 2], [2, 1], [3, 5], [4, 3], [5, 8], [6, 2], [7, 7], [8, 4], [9, 6]]) = 9
   \<and> fst (approx_interactions stable_argsort rev_shuffle 0
        (array_of 2 [[3, 1], [1, 4], [4, 1], [1, 5], [5, 9], [9, 2], [2, 6], [6, 5], [5, 3]])
        (array_of 2 [[1, 2], [2, 1], [3, 5], [4, 3], [5, 8], [6, 2], [7, 7], [8, 4], [9, 6]])
        (0 :: nat)) = Inl ValueError"
proof -
  let ?X = "array_of 2 [[1, 2], [2, 1], [3, 5], [4, 3], [5, 8], [6, 2], [7, 7], [8, 4], [9, 6]]"
  let ?S = "array_of 2 [[3, 1], [1, 4], [4, 1], [1, 5], [5, 9], [9, 2], [2, 6], [6, 5], [5, 3]]"
  have wx: "wf_array ?X" and ws: "wf_array ?S" by (simp_all add: wf_array_def array_of_def)
  have s0: "shape0 ?S = shape0 ?X" and s1: "shape1 ?S = shape1 ?X" by (simp_all add: array_of_def)
  have n9: "shape0 ?X = 9" by (simp add: array_of_def)
  have i0: "(0 :: int) \<le> 0" and i1: "(0 :: int) < int (shape1 ?X)" by (simp_all add: array_of_def)
  have n: "shape0 ?X < 10" by (simp add: array_of_def)
  have ex: "\<exists>i < shape1 ?X. int i \<noteq> 0
               \<and> \<not> sum_list (map abs (map (\<lambda>r. rows ?X ! r ! i) [0..<shape0 ?X])) < 1 / 10 ^ 8"
    by (rule exI [of _ 1]) (simp add: array_of_def upt_rec)
  have "fst (approx_interactions stable_argsort rev_shuffle 0 ?S ?X (0 :: nat)) = Inl ValueError"
    using small_sample_raises [OF stable_argsort_ok rev_shuffle_ok wx ws s0 s1 i0 i1 n ex] .
  then show ?thesis using wx n9 by (simp only:)
qed

text \<open>
  C1. Whenever the function returns, its result is a permutation of the column
  indices in descending order of score (lemmas \<open>ranking_is_permutation\<close> and
  \<open>rank_scores_descending\<close>), and it returns whenever at least ten rows are
  sampled. It does not return for every valid input: on the well-formed pair of
  2 x 2 matrices below, with target index 0, the call ends in \<^verbatim>\<open>ValueError\<close> and
  no ranking is produced.
\<close>

theorem no_ranking_for_two_rows:
  "wf_array (array_of 2 [[1, 2], [3, 4]]) \<and> wf_array (array_of 2 [[5, 6], [7, 8]])
   \<and> fst (approx_interactions stable_argsort rev_shuffle 0
        (array_of 2 [[5, 6], [7, 8]]) (array_of 2 [[1, 2], [3, 4]]) (0 :: nat)) = Inl ValueError
   \<and> (\<nexists>r. fst (approx_interactions stable_argsort rev_shuffle 0
        (array_of 2 [[5, 6], [7, 8]]) (array_of 2 [[1, 2], [3, 4]]) (0 :: nat)) = Inr r)"
proof -
  have e: "fst (approx_interactions stable_argsort rev_shuffle 0
        (array_of 2 [[5, 6], [7, 8]]) (array_of 2 [[1, 2], [3, 4]]) (0 :: nat)) = Inl ValueError"
    by (simp add: approx_interactions_def sample_inds_def run_eval upt_rec)
  have w: "wf_array (array_of 2 [[1, 2], [3, 4]]) \<and> wf_array (array_of 2 [[5, 6], [7, 8]])"
    by (simp add: wf_array_def array_of_def)
  show ?thesis using e w by simp
qed

section \<open>Shapes that differ\<close>






section \<open>The three callers\<close>

text \<open>
  C4. Only \<^verbatim>\<open>dependence_plot\<close> calls the ranker as
  \<^verbatim>\<open>approx_interactions(ind, shap_values, features)\<close> and takes the first index.
  \<^verbatim>\<open>interaction_plot\<close> passes \<^verbatim>\<open>(X, shap_value_matrix, ind)\<close>, so the integer
  lands in the parameter \<open>X\<close> and line 142 raises \<^verbatim>\<open>AttributeError\<close>;
  \<^verbatim>\<open>joint_plot\<close> calls the name \<^verbatim>\<open>interactions\<close>, which the module does not
  define, and raises \<^verbatim>\<open>NameError\<close>. On the same data the first returns
  feature 1 and the other two fail.
\<close>

theorem callers_disagree:
  "fst (dependence_plot_auto stable_argsort rev_shuffle 0
     (array_of 2 [[0, 0], [1, 0], [0, 0], [1, 0], [0, 0], [1, 0], [0, 0], [1, 0], [0, 0], [1, 0],
        [0, 0], [1, 0], [0, 0], [1, 0], [0, 0], [1, 0], [0, 0], [1, 0], [0, 0], [1, 0]])
     (array_of 2 [[0, 0], [1, 1], [2, 2], [3, 2], [4, 0], [5, 1], [6, 0], [7, 1], [8, 0], [9, 1],
        [10, 0], [11, 1], [12, 0], [13, 1], [14, 0], [15, 1], [16, 0], [17, 1], [18, 0], [19, 1]])
     (0 :: nat)) = Inr 1
   \<and> fst (interaction_plot_auto stable_argsort rev_shuffle 0
     (array_of 2 [[0, 0], [1, 1], [2, 2], [3, 2], [4, 0], [5, 1], [6, 0], [7, 1], [8, 0], [9, 1],
        [10, 0], [11, 1], [12, 0], [13, 1], [14, 0], [15, 1], [16, 0], [17, 1], [18, 0], [19, 1]])
     (array_of 2 [[0, 0], [1, 0], [0, 0], [1, 0], [0, 0], [1, 0], [0, 0], [1, 0], [0, 0], [1, 0],
        [0, 0], [1, 0], [0, 0], [1, 0], [0, 0], [1, 0], [0, 0], [1, 0], [0, 0], [1, 0]])
     (0 :: nat)) = Inl AttributeError
   \<and> fst (joint_plot_auto stable_argsort rev_shuffle 0
     (array_of 2 [[0, 0], [1, 1], [2, 2], [3, 2], [4, 0], [5, 1], [6, 0], [7, 1], [8, 0], [9, 1],
        [10, 0], [11, 1], [12, 0], [13, 1], [14, 0], [15, 1], [16, 0], [17, 1], [18, 0], [19, 1]])
     (array_of 2 [[0, 0], [1, 0], [0, 0], [1, 0], [0, 0], [1, 0], [0, 0], [1, 0], [0, 0], [1, 0],
        [0, 0], [1, 0], [0, 0], [1, 0], [0, 0], [1, 0], [0, 0], [1, 0], [0, 0], [1, 0]])
     0 (0 :: nat)) = Inl NameError"
proof -
  let ?S = "array_of 2 [[0, 0], [1, 0], [0, 0], [1, 0], [0, 0], [1, 0], [0, 0], [1, 0], [0, 0], [1, 0],
        [0, 0], [1, 0], [0, 0], [1, 0], [0, 0], [1, 0], [0, 0], [1, 0], [0, 0], [1, 0]]"
  let ?X = "array_of 2 [[0, 0], [1, 1], [2, 2], [3, 2], [4, 0], [5, 1], [6, 0], [7, 1], [8, 0], [9, 1],
        [10, 0], [11, 1], [12, 0], [13, 1], [14, 0], [15, 1], [16, 0], [17, 1], [18, 0], [19, 1]]"
  let ?inds = "[0, 1, 2, 3, 4, 5, 6, 7, 8, 9, 10, 11, 12, 13, 14, 15, 16, 17, 18, 19 :: nat]"
  have n: "shape0 ?X = 20" by (simp add: array_of_def)
  have s: "sample_inds rev_shuffle (shape0 ?X) (0 :: nat) = (?inds, 0)"
    by (simp add: n sample_inds_def upt_rec)
  have sc: "interaction_scores stable_argsort 0 ?S ?X ?inds = Inr [0, 9]"
    by (simp add: run_eval window_eval)
  have rk: "rank_scores stable_argsort [0, 9] = [1, 0]"
    by (simp add: rank_scores_def stable_argsort_def upt_rec)
  have ret: "approx_interactions stable_argsort rev_shuffle 0 ?S ?X (0 :: nat) = (Inr [1, 0], 0)"
    by (simp only: approx_interactions_def s prod.case sc ebind_def sum.case rk)
  have sub: "subscript [1, 0] 0 = Inr 1" by (simp add: subscript_def norm_index_def ebind_def)
  have d: "fst (dependence_plot_auto stable_argsort rev_shuffle 0 ?S ?X (0 :: nat)) = Inr 1"
    by (simp only: dependence_plot_auto_def approx_interactions_call_def pyval.case ret prod.case
          ebind_def sum.case sub fst_conv)
  have i: "fst (interaction_plot_auto stable_argsort rev_shuffle 0 ?X ?S (0 :: nat)) = Inl AttributeError"
    by (simp add: interaction_plot_auto_def approx_interactions_call_def ebind_def)
  have j: "fst (joint_plot_auto stable_argsort rev_shuffle 0 ?X ?S 0 (0 :: nat)) = Inl NameError"
    by (simp add: joint_plot_auto_def module_globals_def)
  show ?thesis using d i j by (simp only:)
qed

end
